theory Spec2Isabelle
  imports Main "HOL-Library.Multiset"
begin

section \<open>Data model of bling.go\<close>

text \<open>
  A line is a Go byte slice, modelled as a \<open>string\<close> (a list of 8-bit characters).
  A color is a Go string. Indices are Go \<open>int\<close>s; they are modelled as unbounded
  integers, since every index the program computes lies between \<open>-1\<close> and the length
  of a line held in memory, far from the 64-bit limits.
\<close>

type_synonym color = string

definition RESET :: color where
  "RESET = ''reset''"

definition OVERLAP :: color where
  "OVERLAP = ''overlap''"

record segment =
  sbegin :: int
  send :: int
  sc :: color

definition newSegment :: "int \<Rightarrow> int \<Rightarrow> color \<Rightarrow> segment" where
  "newSegment b e col = \<lparr>sbegin = b, send = e, sc = col\<rparr>"

text \<open>\<open>contains\<close> of the source: both bounds are inclusive.\<close>

definition contains :: "segment \<Rightarrow> int \<Rightarrow> bool" where
  "contains s x \<longleftrightarrow> sbegin s \<le> x \<and> x \<le> send s"

text \<open>
  The escape-sequence table \<open>colors\<close>. Go's map lookup of a missing key gives the
  nil slice; the lookup is modelled as an option and \<open>colors\<close> turns a miss into the
  empty byte string, which is what writing a nil slice emits.
\<close>

definition ESC :: char where
  "ESC = CHR 0x1B"

definition colorTable :: "(color \<times> string) list" where
  "colorTable =
    [(''black'', ESC # ''[30m''),
     (''red'', ESC # ''[31m''),
     (''green'', ESC # ''[32m''),
     (''yellow'', ESC # ''[33m''),
     (''blue'', ESC # ''[34m''),
     (''magenta'', ESC # ''[35m''),
     (''cyan'', ESC # ''[36m''),
     (''white'', ESC # ''[37m''),
     (''reset'', ESC # ''[0m''),
     (''overlap'', ESC # ''[37;1;4m'')]"

definition colorLookup :: "color \<Rightarrow> string option" where
  "colorLookup col = map_of colorTable col"

definition colors :: "color \<Rightarrow> string" where
  "colors col = (case colorLookup col of None \<Rightarrow> [] | Some e \<Rightarrow> e)"

section \<open>The segmenter: makeColorizedSegments\<close>

text \<open>
  The inner loop over the matches at position \<open>i\<close>, with its two local variables
  \<open>c\<close> and \<open>overlaps\<close>. The second containing match sets the overlap color and
  leaves the loop (\<open>break\<close>).
\<close>

fun overlapScan :: "int \<Rightarrow> segment list \<Rightarrow> color \<Rightarrow> nat \<Rightarrow> color" where
  "overlapScan i [] c overlaps = c"
| "overlapScan i (m # ms) c overlaps =
     (if contains m i then
        (if Suc overlaps = 1 then overlapScan i ms (sc m) (Suc overlaps)
         else if Suc overlaps > 1 then OVERLAP
         else overlapScan i ms c (Suc overlaps))
      else overlapScan i ms c overlaps)"

definition resolveColor :: "segment list \<Rightarrow> int \<Rightarrow> color" where
  "resolveColor matches i = overlapScan i matches RESET 0"

text \<open>
  One iteration of the outer loop. The state is the slice \<open>segments\<close> and the
  segment under construction. In bling.go a fresh segment is \<open>(i, i+1)\<close> and the
  initial one \<open>(0, 0)\<close>: the output ranges are half-open.
\<close>

definition segStep ::
  "segment list \<Rightarrow> segment list \<times> segment \<Rightarrow> nat \<Rightarrow> segment list \<times> segment" where
  "segStep matches st i =
     (let c = resolveColor matches (int i) in
      if sc (snd st) = c then (fst st, (snd st)\<lparr>send := send (snd st) + 1\<rparr>)
      else (fst st @ [snd st], newSegment (int i) (int i + 1) c))"

definition segLoop :: "segment list \<Rightarrow> nat \<Rightarrow> segment list \<times> segment" where
  "segLoop matches n = foldl (segStep matches) ([], newSegment 0 0 RESET) [0..<n]"

definition makeColorizedSegments :: "string \<Rightarrow> segment list \<Rightarrow> segment list" where
  "makeColorizedSegments line matches =
     (let st = segLoop matches (length line) in fst st @ [snd st])"

text \<open>
  The variant of the same function in src/unnamed/part_000: a fresh segment is
  \<open>(i, i)\<close> and the initial one \<open>(0, -1)\<close>, so the output ranges are closed.
\<close>

definition segStep_p0 ::
  "segment list \<Rightarrow> segment list \<times> segment \<Rightarrow> nat \<Rightarrow> segment list \<times> segment" where
  "segStep_p0 matches st i =
     (let c = resolveColor matches (int i) in
      if sc (snd st) = c then (fst st, (snd st)\<lparr>send := send (snd st) + 1\<rparr>)
      else (fst st @ [snd st], newSegment (int i) (int i) c))"

definition segLoop_p0 :: "segment list \<Rightarrow> nat \<Rightarrow> segment list \<times> segment" where
  "segLoop_p0 matches n = foldl (segStep_p0 matches) ([], newSegment 0 (- 1) RESET) [0..<n]"

definition makeColorizedSegments_p0 :: "string \<Rightarrow> segment list \<Rightarrow> segment list" where
  "makeColorizedSegments_p0 line matches =
     (let st = segLoop_p0 matches (length line) in fst st @ [snd st])"

section \<open>The renderer: printColorized\<close>

text \<open>
  Go's slice expression \<open>line[a:b]\<close> panics unless \<open>0 \<le> a \<le> b \<le> cap(line)\<close>. The
  model panics (\<open>None\<close>) as soon as \<open>b\<close> exceeds the length, which is the stricter
  bound.
\<close>

definition goSlice :: "string \<Rightarrow> int \<Rightarrow> int \<Rightarrow> string option" where
  "goSlice line a b =
     (if 0 \<le> a \<and> a \<le> b \<and> b \<le> int (length line)
      then Some (take (nat (b - a)) (drop (nat a) line)) else None)"

text \<open>
  What the renderer writes for one segment: the escape sequence of the color, the
  literal text of the line, and the escape sequence of \<open>reset\<close>.
\<close>

type_synonym piece = "string \<times> string \<times> string"

definition segmentText :: "string \<Rightarrow> segment \<Rightarrow> string option" where
  "segmentText line s = goSlice line (sbegin s) (send s)"

definition segmentText_p0 :: "string \<Rightarrow> segment \<Rightarrow> string option" where
  "segmentText_p0 line s = goSlice line (sbegin s) (send s + 1)"

fun renderPieces :: "(segment \<Rightarrow> string option) \<Rightarrow> segment list \<Rightarrow> piece list option" where
  "renderPieces txt [] = Some []"
| "renderPieces txt (s # ss) =
     (case txt s of None \<Rightarrow> None
      | Some t \<Rightarrow>
          (case renderPieces txt ss of None \<Rightarrow> None
           | Some ps \<Rightarrow> Some ((colors (sc s), t, colors RESET) # ps)))"

definition pieceBytes :: "piece \<Rightarrow> string" where
  "pieceBytes p = fst p @ fst (snd p) @ snd (snd p)"

definition literalText :: "piece list \<Rightarrow> string" where
  "literalText ps = concat (map (\<lambda>p. fst (snd p)) ps)"

definition newline :: char where
  "newline = CHR 0x0A"

text \<open>The bytes written to standard output for one line; \<open>None\<close> is a panic.\<close>

definition printColorized :: "string \<Rightarrow> segment list \<Rightarrow> string option" where
  "printColorized line segments =
     (case renderPieces (segmentText line) segments of None \<Rightarrow> None
      | Some ps \<Rightarrow> Some (concat (map pieceBytes ps) @ [newline]))"

definition printColorized_p0 :: "string \<Rightarrow> segment list \<Rightarrow> string option" where
  "printColorized_p0 line segments =
     (case renderPieces (segmentText_p0 line) segments of None \<Rightarrow> None
      | Some ps \<Rightarrow> Some (concat (map pieceBytes ps) @ [newline]))"

section \<open>The matcher: findMatchingSegments\<close>

text \<open>
  The regular-expression engine is Go's library. A compiled expression is modelled by
  what the program asks of it: \<open>FindAllSubmatchIndex(line, -1)\<close>, reduced to the pair
  \<open>(idx[0], idx[1])\<close> of every match; the nil result is the empty list. The map
  \<open>exprsMap\<close> is an association list in the order the \<open>range\<close> loop visits it.
\<close>

type_synonym regexp = "string \<Rightarrow> (int \<times> int) list"

type_synonym exprsMap = "(color \<times> regexp list) list"

definition matchSpans :: "string \<Rightarrow> color \<Rightarrow> regexp \<Rightarrow> segment list" where
  "matchSpans line c expr = map (\<lambda>idx. newSegment (fst idx) (snd idx - 1) c) (expr line)"

definition allSpans :: "string \<Rightarrow> exprsMap \<Rightarrow> segment list" where
  "allSpans line exprs =
     concat (map (\<lambda>ce. concat (map (matchSpans line (fst ce)) (snd ce))) exprs)"

text \<open>
  \<open>sort.Slice\<close> orders by \<open>begin\<close> and promises nothing about equal keys; the model
  takes the stable order.
\<close>

definition findMatchingSegments :: "string \<Rightarrow> exprsMap \<Rightarrow> segment list" where
  "findMatchingSegments line exprs = sort_key sbegin (allSpans line exprs)"

section \<open>The line driver: run\<close>

datatype error = EOF | ReadError string | OpenError string | ErrorString string

text \<open>
  The input stream: the bytes still to come and the error the stream reports once they
  are used up (\<open>EOF\<close> for a clean end). \<open>ReadBytes\<close> follows the documentation of
  \<open>bufio.Reader.ReadBytes\<close>: the data up to and including the delimiter with a nil
  error, or, when the stream ends first, the data read so far together with the error.
\<close>

record reader =
  pending :: string
  final :: error

definition ReadBytes :: "reader \<Rightarrow> string \<times> error option \<times> reader" where
  "ReadBytes r =
     (if newline \<in> set (pending r)
      then (takeWhile (\<lambda>b. b \<noteq> newline) (pending r) @ [newline], None,
            r\<lparr>pending := tl (dropWhile (\<lambda>b. b \<noteq> newline) (pending r))\<rparr>)
      else (pending r, Some (final r), r\<lparr>pending := []\<rparr>))"

datatype outcome = Returned "error option" | Panicked

text \<open>
  One line of the loop body after a successful read: the conditional strip of the
  trailing newline, then matcher, segmenter and renderer. Indexing an empty slice
  panics.
\<close>

definition stripNewline :: "string \<Rightarrow> string option" where
  "stripNewline line =
     (if line = [] then None
      else if last line = newline then Some (butlast line) else Some line)"

definition processLine :: "exprsMap \<Rightarrow> string \<Rightarrow> string option" where
  "processLine exprs line =
     (let matches = findMatchingSegments line exprs;
          colorized = makeColorizedSegments line matches
      in printColorized line colorized)"

text \<open>
  The loop of \<open>run\<close>, with the bytes written to standard output so far as an
  accumulator. Any error of the read returns at once: nil for \<open>EOF\<close>, the error
  otherwise.
\<close>

function runLoop :: "reader \<Rightarrow> exprsMap \<Rightarrow> string \<Rightarrow> string \<times> outcome" where
  "runLoop r exprs out =
     (let rd = ReadBytes r in
      if fst (snd rd) \<noteq> None then
        (if fst (snd rd) = Some EOF then (out, Returned None)
         else (out, Returned (fst (snd rd))))
      else
        (case stripNewline (fst rd) of
           None \<Rightarrow> (out, Panicked)
         | Some line \<Rightarrow>
             (case processLine exprs line of
                None \<Rightarrow> (out, Panicked)
              | Some bytes \<Rightarrow> runLoop (snd (snd rd)) exprs (out @ bytes))))"
  by pat_completeness auto
termination
proof (relation "measure (\<lambda>(r, exprs, out). length (pending r))")
  show "wf (measure (\<lambda>(r, exprs, out). length (pending r)))"
    by simp
next
  fix r :: reader and exprs :: exprsMap and out :: string
    and rd :: "string \<times> error option \<times> reader" and line bytes :: string
  assume rd: "rd = ReadBytes r" and ok: "\<not> fst (snd rd) \<noteq> None"
  from ok rd have nl: "newline \<in> set (pending r)"
    by (auto simp: ReadBytes_def split: if_splits)
  then have "dropWhile (\<lambda>b. b \<noteq> newline) (pending r) \<noteq> []"
    by auto
  then have "length (tl (dropWhile (\<lambda>b. b \<noteq> newline) (pending r)))
               < length (dropWhile (\<lambda>b. b \<noteq> newline) (pending r))"
    by (cases "dropWhile (\<lambda>b. b \<noteq> newline) (pending r)") auto
  also have "\<dots> \<le> length (pending r)"
    by (rule length_dropWhile_le)
  finally show "((snd (snd rd), exprs, out @ bytes), (r, exprs, out))
                  \<in> measure (\<lambda>(r, exprs, out). length (pending r))"
    using rd nl by (simp add: ReadBytes_def)
qed

declare runLoop.simps [simp del]

definition run :: "reader \<Rightarrow> exprsMap \<Rightarrow> string \<times> outcome" where
  "run r exprs = runLoop r exprs []"

section \<open>Argument parsing and main\<close>

text \<open>
  What the program needs from its surroundings: opening a file by name, standard
  input, and \<open>regexp.Compile\<close>.
\<close>

record env =
  osOpen :: "string \<Rightarrow> error + reader"
  osStdin :: reader
  regexpCompile :: "string \<Rightarrow> regexp option"

text \<open>
  \<open>FindStringSubmatch\<close> for the expression \<open>^-(\w+)=(.*)\<close>, giving \<open>parts[1]\<close> and
  \<open>parts[2]\<close> when there is a match (then \<open>len(parts)\<close> is 3). In Go's syntax \<open>\w\<close>
  is an ASCII letter, digit or underscore and \<open>.\<close> is any character but a newline.
  Since \<open>=\<close> is no word character, the greedy \<open>\w+\<close> takes the whole run of word
  characters after the dash.
\<close>

definition isWordChar :: "char \<Rightarrow> bool" where
  "isWordChar ch =
     (let n = (of_char ch :: nat) in
      (48 \<le> n \<and> n \<le> 57) \<or> (65 \<le> n \<and> n \<le> 90) \<or> n = 95 \<or> (97 \<le> n \<and> n \<le> 122))"

definition findStringSubmatch :: "string \<Rightarrow> (string \<times> string) option" where
  "findStringSubmatch arg =
     (case arg of
        [] \<Rightarrow> None
      | d # rest \<Rightarrow>
          if d \<noteq> CHR ''-'' then None
          else (case dropWhile isWordChar rest of
                  [] \<Rightarrow> None
                | e # pat \<Rightarrow>
                    if takeWhile isWordChar rest \<noteq> [] \<and> e = CHR ''=''
                    then Some (takeWhile isWordChar rest, takeWhile (\<lambda>b. b \<noteq> newline) pat)
                    else None))"

text \<open>\<open>exprs[col] = append(exprs[col], expr)\<close> on the association list.\<close>

fun addExpr :: "exprsMap \<Rightarrow> color \<Rightarrow> regexp \<Rightarrow> exprsMap" where
  "addExpr [] col expr = [(col, [expr])]"
| "addExpr ((k, exs) # rest) col expr =
     (if k = col then (k, exs @ [expr]) # rest else (k, exs) # addExpr rest col expr)"

text \<open>
  The loop of \<open>parseArgs\<close> over the remaining arguments; \<open>i != len(args)-1\<close> holds
  exactly when further arguments follow. The result carries the file when one was
  opened.
\<close>

fun parseLoop :: "env \<Rightarrow> string list \<Rightarrow> exprsMap \<Rightarrow> error + (exprsMap \<times> reader option)" where
  "parseLoop ev [] exprs = Inr (exprs, None)"
| "parseLoop ev (arg # rest) exprs =
     (case findStringSubmatch arg of
        None \<Rightarrow>
          (if rest \<noteq> [] then Inl (ErrorString (''Invalid argument '' @ arg))
           else (case osOpen ev arg of
                   Inl err \<Rightarrow> Inl err
                 | Inr f \<Rightarrow> Inr (exprs, Some f)))
      | Some (col, pattern) \<Rightarrow>
          (if colorLookup col = None then Inl (ErrorString (''Unrecognized color '' @ col))
           else (case regexpCompile ev pattern of
                   None \<Rightarrow> Inl (ErrorString (''Invalid pattern '' @ pattern))
                 | Some expr \<Rightarrow> parseLoop ev rest (addExpr exprs col expr))))"

definition parseArgs :: "env \<Rightarrow> string list \<Rightarrow> error + (exprsMap \<times> reader)" where
  "parseArgs ev args =
     (case parseLoop ev args [] of
        Inl err \<Rightarrow> Inl err
      | Inr (exprs, rc) \<Rightarrow>
          Inr (exprs, (case rc of None \<Rightarrow> osStdin ev | Some f \<Rightarrow> f)))"

text \<open>
  \<open>main\<close> on the whole of \<open>os.Args\<close>, giving the exit status and the bytes on
  standard output. \<open>log.Fatal\<close> exits with status 1, a panic with status 2. The value
  \<open>run\<close> returns is not looked at. What the \<open>log\<close> package writes goes to the
  diagnostic stream, which is left out.
\<close>

definition main :: "env \<Rightarrow> string list \<Rightarrow> nat \<times> string" where
  "main ev osArgs =
     (if length osArgs < 2 then (1, [])
      else (case parseArgs ev (tl osArgs) of
              Inl err \<Rightarrow> (1, [])
            | Inr (exprs, file) \<Rightarrow>
                (case run file exprs of
                   (out, Panicked) \<Rightarrow> (2, out)
                 | (out, Returned err) \<Rightarrow> (0, out))))"

section \<open>Notions used to state the properties\<close>

text \<open>
  The positions a segment of the output stands for are those the renderer prints for
  it: \<open>line[s.begin:s.end]\<close> in bling.go, \<open>line[s.begin:s.end+1]\<close> in part_000
  (there it is \<open>contains\<close>).
\<close>

definition covers :: "segment \<Rightarrow> int \<Rightarrow> bool" where
  "covers s x \<longleftrightarrow> sbegin s \<le> x \<and> x < send s"

definition positions :: "segment \<Rightarrow> int set" where
  "positions s = {sbegin s ..< send s}"

definition positions_p0 :: "segment \<Rightarrow> int set" where
  "positions_p0 s = {sbegin s .. send s}"

text \<open>The color of the output at a position: that of the first segment covering it.\<close>

definition colorAt :: "segment list \<Rightarrow> int \<Rightarrow> color option" where
  "colorAt out x = map_option sc (find (\<lambda>s. covers s x) out)"

definition colorAt_p0 :: "segment list \<Rightarrow> int \<Rightarrow> color option" where
  "colorAt_p0 out x = map_option sc (find (\<lambda>s. contains s x) out)"

text \<open>The match spans that contain a position, in the order of the matches.\<close>

definition spansAt :: "segment list \<Rightarrow> int \<Rightarrow> segment list" where
  "spansAt matches x = filter (\<lambda>m. contains m x) matches"

text \<open>A half-open output segment of bling.go read as the closed span of the same positions.\<close>

definition closedSpan :: "segment \<Rightarrow> segment" where
  "closedSpan s = s\<lparr>send := send s - 1\<rparr>"

text \<open>
  A list of half-open segments tiles \<open>[a, b)\<close>: the first begins at \<open>a\<close>, each begins
  where the one before ends, none ends before it begins, and the last ends at \<open>b\<close>.
\<close>

fun tiles :: "int \<Rightarrow> segment list \<Rightarrow> int \<Rightarrow> bool" where
  "tiles a [] b \<longleftrightarrow> a = b"
| "tiles a (s # ss) b \<longleftrightarrow> sbegin s = a \<and> a \<le> send s \<and> tiles (send s) ss b"

text \<open>
  The configuration errors, in the words of the specification, for the argument at
  place \<open>k\<close> of the argument list: a malformed token that is not the last one; an
  unrecognized color name; an invalid regular expression; a file path (the last
  argument, not of the binding shape) that cannot be opened.
\<close>

definition malformedToken :: "string \<Rightarrow> bool" where
  "malformedToken arg \<longleftrightarrow> findStringSubmatch arg = None"

definition unrecognizedColor :: "string \<Rightarrow> bool" where
  "unrecognizedColor arg \<longleftrightarrow>
     (case findStringSubmatch arg of None \<Rightarrow> False
      | Some cp \<Rightarrow> colorLookup (fst cp) = None)"

definition invalidPattern :: "env \<Rightarrow> string \<Rightarrow> bool" where
  "invalidPattern ev arg \<longleftrightarrow>
     (case findStringSubmatch arg of None \<Rightarrow> False
      | Some cp \<Rightarrow> regexpCompile ev (snd cp) = None)"

definition unopenablePath :: "env \<Rightarrow> string \<Rightarrow> bool" where
  "unopenablePath ev arg \<longleftrightarrow> malformedToken arg \<and> isl (osOpen ev arg)"

definition configErrorAt :: "env \<Rightarrow> string list \<Rightarrow> nat \<Rightarrow> bool" where
  "configErrorAt ev args k \<longleftrightarrow>
     k < length args \<and>
     ((malformedToken (args ! k) \<and> Suc k < length args)
      \<or> unrecognizedColor (args ! k)
      \<or> invalidPattern ev (args ! k)
      \<or> (unopenablePath ev (args ! k) \<and> Suc k = length args))"

section \<open>Facts about the segmenter loop\<close>

lemma overlapScan_Suc:
  "overlapScan i ms c (Suc n) = (if spansAt ms i = [] then c else OVERLAP)"
  by (induction ms arbitrary: c) (auto simp: spansAt_def)

lemma resolveColor_spansAt:
  "resolveColor ms i = (case spansAt ms i of [] \<Rightarrow> RESET | [m] \<Rightarrow> sc m | _ \<Rightarrow> OVERLAP)"
proof -
  have "overlapScan i ms c 0 = (case spansAt ms i of [] \<Rightarrow> c | [m] \<Rightarrow> sc m | _ \<Rightarrow> OVERLAP)" for c
  proof (induction ms arbitrary: c)
    case Nil
    then show ?case by (simp add: spansAt_def)
  next
    case (Cons m ms)
    show ?case
    proof (cases "contains m i")
      case True
      have "overlapScan i (m # ms) c 0 = overlapScan i ms (sc m) (Suc 0)"
        using True by simp
      also have "\<dots> = (if spansAt ms i = [] then sc m else OVERLAP)"
        by (rule overlapScan_Suc)
      finally show ?thesis
        using True by (simp add: spansAt_def split: list.splits)
    next
      case False
      then show ?thesis using Cons.IH by (simp add: spansAt_def)
    qed
  qed
  then show ?thesis by (simp add: resolveColor_def)
qed

lemma spansAt_perm:
  assumes "mset ms = mset ms'"
  shows "resolveColor ms i = resolveColor ms' i"
proof -
  have m: "mset (spansAt ms i) = mset (spansAt ms' i)"
    using assms by (simp add: spansAt_def)
  then have len: "length (spansAt ms i) = length (spansAt ms' i)"
    by (metis size_mset)
  show ?thesis
  proof (cases "spansAt ms i")
    case Nil
    then show ?thesis using len by (simp add: resolveColor_spansAt)
  next
    case (Cons a as)
    note outer = Cons
    show ?thesis
    proof (cases as)
      case Nil
      with outer len obtain b where b: "spansAt ms' i = [b]"
        by (cases "spansAt ms' i") auto
      with m outer Nil have "a = b" by simp
      then show ?thesis using outer Nil b by (simp add: resolveColor_spansAt)
    next
      case (Cons a' as')
      with outer len obtain b b' bs where "spansAt ms' i = b # b' # bs"
        by (cases "spansAt ms' i"; cases "tl (spansAt ms' i)") auto
      then show ?thesis using outer Cons by (simp add: resolveColor_spansAt)
    qed
  qed
qed

lemma segLoop_0: "segLoop ms 0 = ([], newSegment 0 0 RESET)"
  by (simp add: segLoop_def)

lemma segLoop_Suc: "segLoop ms (Suc n) = segStep ms (segLoop ms n) n"
  by (simp add: segLoop_def)

lemma segLoop_p0_0: "segLoop_p0 ms 0 = ([], newSegment 0 (- 1) RESET)"
  by (simp add: segLoop_p0_def)

lemma segLoop_p0_Suc: "segLoop_p0 ms (Suc n) = segStep_p0 ms (segLoop_p0 ms n) n"
  by (simp add: segLoop_p0_def)

lemma tiles_append:
  "tiles a (xs @ ys) b \<longleftrightarrow> (\<exists>m. tiles a xs m \<and> tiles m ys b)"
  by (induction xs arbitrary: a) auto

lemma tiles_snoc:
  "tiles a (xs @ [s]) b \<longleftrightarrow> tiles a xs (sbegin s) \<and> sbegin s \<le> send s \<and> send s = b"
  by (auto simp: tiles_append)

lemma segLoop_tiles:
  "tiles 0 (fst (segLoop ms n) @ [snd (segLoop ms n)]) (int n)"
proof (induction n)
  case 0
  show ?case by (simp add: segLoop_0 newSegment_def)
next
  case (Suc n)
  then show ?case
    by (auto simp: segLoop_Suc segStep_def Let_def tiles_snoc newSegment_def)
qed

lemma segLoop_colors:
  "s \<in> set (fst (segLoop ms n) @ [snd (segLoop ms n)]) \<Longrightarrow> covers s i
     \<Longrightarrow> sc s = resolveColor ms i"
proof (induction n arbitrary: s)
  case 0
  then show ?case by (auto simp: segLoop_0 newSegment_def covers_def)
next
  case (Suc n)
  have t: "tiles 0 (fst (segLoop ms n) @ [snd (segLoop ms n)]) (int n)"
    by (rule segLoop_tiles)
  show ?case
  proof (cases "sc (snd (segLoop ms n)) = resolveColor ms (int n)")
    case True
    with Suc.prems have "s \<in> set (fst (segLoop ms n)) \<or> s = (snd (segLoop ms n))\<lparr>send := send (snd (segLoop ms n)) + 1\<rparr>"
      by (auto simp: segLoop_Suc segStep_def Let_def)
    then show ?thesis
    proof
      assume "s \<in> set (fst (segLoop ms n))"
      then show ?thesis using Suc.IH Suc.prems(2) by simp
    next
      assume s: "s = (snd (segLoop ms n))\<lparr>send := send (snd (segLoop ms n)) + 1\<rparr>"
      from t have e: "send (snd (segLoop ms n)) = int n" by (simp add: tiles_snoc)
      show ?thesis
      proof (cases "i = int n")
        case True
        then show ?thesis using s \<open>sc (snd (segLoop ms n)) = resolveColor ms (int n)\<close> by simp
      next
        case False
        with Suc.prems(2) s e have "covers (snd (segLoop ms n)) i"
          by (simp add: covers_def)
        then have "sc (snd (segLoop ms n)) = resolveColor ms i"
          using Suc.IH by simp
        then show ?thesis using s by simp
      qed
    qed
  next
    case False
    with Suc.prems have "s \<in> set (fst (segLoop ms n) @ [snd (segLoop ms n)]) \<or> s = newSegment (int n) (int n + 1) (resolveColor ms (int n))"
      by (auto simp: segLoop_Suc segStep_def Let_def)
    then show ?thesis
    proof
      assume "s \<in> set (fst (segLoop ms n) @ [snd (segLoop ms n)])"
      then show ?thesis using Suc.IH Suc.prems(2) by blast
    next
      assume "s = newSegment (int n) (int n + 1) (resolveColor ms (int n))"
      with Suc.prems(2) show ?thesis by (auto simp: newSegment_def covers_def)
    qed
  qed
qed

lemma segLoop_p0_closed:
  "segLoop_p0 ms n = (map closedSpan (fst (segLoop ms n)), closedSpan (snd (segLoop ms n)))"
proof (induction n)
  case 0
  show ?case by (simp add: segLoop_0 segLoop_p0_0 newSegment_def closedSpan_def)
next
  case (Suc n)
  then show ?case
    by (simp add: segLoop_Suc segLoop_p0_Suc segStep_def segStep_p0_def Let_def
        closedSpan_def newSegment_def)
qed

lemma makeColorizedSegments_p0_closed:
  "makeColorizedSegments_p0 line ms = map closedSpan (makeColorizedSegments line ms)"
  by (simp add: makeColorizedSegments_p0_def makeColorizedSegments_def Let_def segLoop_p0_closed)

lemma segLoop_cong:
  "(\<And>i. i < n \<Longrightarrow> resolveColor ms (int i) = resolveColor ms' (int i))
     \<Longrightarrow> segLoop ms n = segLoop ms' n"
  by (induction n) (simp_all add: segLoop_0 segLoop_Suc segStep_def)

section \<open>Coverage of the line\<close>

lemma tiles_le: "tiles a out b \<Longrightarrow> a \<le> b"
proof (induction out arbitrary: a)
  case Nil
  then show ?case by simp
next
  case (Cons s ss)
  then have "send s \<le> b" by simp
  with Cons.prems show ?case by simp
qed

lemma tiles_positions:
  "tiles a out b \<Longrightarrow> (\<Union>s\<in>set out. positions s) = {a..<b}"
proof (induction out arbitrary: a)
  case Nil
  then show ?case by simp
next
  case (Cons s ss)
  then have "(\<Union>t\<in>set ss. positions t) = {send s..<b}" and "send s \<le> b"
    by (auto dest: tiles_le)
  with Cons.prems show ?case
    by (auto simp: positions_def)
qed

lemma tiles_bounds:
  "tiles a out b \<Longrightarrow> s \<in> set out \<Longrightarrow> a \<le> sbegin s \<and> sbegin s \<le> send s \<and> send s \<le> b"
proof (induction out arbitrary: a)
  case Nil
  then show ?case by simp
next
  case (Cons t ts)
  show ?case
  proof (cases "s = t")
    case True
    with Cons.prems show ?thesis by (auto dest: tiles_le)
  next
    case False
    with Cons.prems have "s \<in> set ts" "tiles (send t) ts b" "a \<le> send t" by auto
    with Cons.IH show ?thesis by fastforce
  qed
qed

lemma tiles_sorted:
  "tiles a out b \<Longrightarrow> sorted_wrt (\<lambda>s t. send s \<le> sbegin t) out"
proof (induction out arbitrary: a)
  case Nil
  then show ?case by simp
next
  case (Cons t ts)
  then have "tiles (send t) ts b" by simp
  then have "\<forall>u\<in>set ts. send t \<le> sbegin u"
    using tiles_bounds by blast
  with Cons show ?case by auto
qed

lemma tiles_adjacent:
  "tiles a out b \<Longrightarrow> Suc j < length out \<Longrightarrow> send (out ! j) = sbegin (out ! Suc j)"
proof (induction out arbitrary: a j)
  case Nil
  then show ?case by simp
next
  case (Cons t ts)
  show ?case
  proof (cases j)
    case 0
    with Cons.prems show ?thesis by (cases ts) auto
  next
    case (Suc k)
    with Cons show ?thesis by auto
  qed
qed

lemma makeColorizedSegments_tiles:
  "tiles 0 (makeColorizedSegments line ms) (int (length line))"
  by (simp add: makeColorizedSegments_def Let_def segLoop_tiles)

lemma positions_p0_closedSpan: "positions_p0 (closedSpan s) = positions s"
  by (auto simp: positions_p0_def positions_def closedSpan_def)

lemma sorted_closedSpan:
  "sorted_wrt (\<lambda>s t. send s \<le> sbegin t) out
     \<Longrightarrow> sorted_wrt (\<lambda>s t. send s < sbegin t) (map closedSpan out)"
  by (induction out) (auto simp: closedSpan_def)

text \<open>
  C3 (full coverage). For a line of length \<open>N\<close> and any match spans, the positions of
  the output segments of bling.go (half-open ranges) have union exactly \<open>[0, N)\<close>;
  the segments come in ascending order, each ending no later than the next begins, so
  no position lies in two of them; and each segment begins exactly where the one before
  ends, so there is no gap. The same holds for the closed ranges of the part_000
  variant.
\<close>

theorem C3_full_coverage:
  "(\<Union>s\<in>set (makeColorizedSegments line ms). positions s) = {0 ..< int (length line)}
   \<and> sorted_wrt (\<lambda>s t. send s \<le> sbegin t) (makeColorizedSegments line ms)
   \<and> (\<forall>j. Suc j < length (makeColorizedSegments line ms) \<longrightarrow>
         send (makeColorizedSegments line ms ! j) = sbegin (makeColorizedSegments line ms ! Suc j))
   \<and> (\<Union>s\<in>set (makeColorizedSegments_p0 line ms). positions_p0 s) = {0 ..< int (length line)}
   \<and> sorted_wrt (\<lambda>s t. send s < sbegin t) (makeColorizedSegments_p0 line ms)"
proof -
  let ?out = "makeColorizedSegments line ms"
  have t: "tiles 0 ?out (int (length line))"
    by (rule makeColorizedSegments_tiles)
  have u: "(\<Union>s\<in>set ?out. positions s) = {0 ..< int (length line)}"
    using t by (rule tiles_positions)
  have s: "sorted_wrt (\<lambda>s t. send s \<le> sbegin t) ?out"
    using t by (rule tiles_sorted)
  have a: "\<forall>j. Suc j < length ?out \<longrightarrow> send (?out ! j) = sbegin (?out ! Suc j)"
    using t by (blast intro: tiles_adjacent)
  have u0: "(\<Union>s\<in>set (makeColorizedSegments_p0 line ms). positions_p0 s) = {0 ..< int (length line)}"
    using u by (simp add: makeColorizedSegments_p0_closed positions_p0_closedSpan)
  have s0: "sorted_wrt (\<lambda>s t. send s < sbegin t) (makeColorizedSegments_p0 line ms)"
    using s by (simp add: makeColorizedSegments_p0_closed sorted_closedSpan)
  from u s a u0 s0 show ?thesis by blast
qed

theorem C3_full_coverage_witness:
  "makeColorizedSegments ''abcdef'' [newSegment 0 2 ''red'', newSegment 2 4 ''blue'']
     = [newSegment 0 0 RESET, newSegment 0 2 ''red'', newSegment 2 3 OVERLAP,
        newSegment 3 5 ''blue'', newSegment 5 6 RESET]
   \<and> Suc 1 < length (makeColorizedSegments ''abcdef''
                        [newSegment 0 2 ''red'', newSegment 2 4 ''blue''])
   \<and> send (makeColorizedSegments ''abcdef''
             [newSegment 0 2 ''red'', newSegment 2 4 ''blue''] ! 1)
       = sbegin (makeColorizedSegments ''abcdef''
                  [newSegment 0 2 ''red'', newSegment 2 4 ''blue''] ! Suc 1)
   \<and> (\<Union>s\<in>set (makeColorizedSegments ''abcdef''
                    [newSegment 0 2 ''red'', newSegment 2 4 ''blue'']).
         positions s) = {0 ..< 6}"
proof -
  have v: "makeColorizedSegments ''abcdef'' [newSegment 0 2 ''red'', newSegment 2 4 ''blue'']
     = [newSegment 0 0 RESET, newSegment 0 2 ''red'', newSegment 2 3 OVERLAP,
        newSegment 3 5 ''blue'', newSegment 5 6 RESET]"
    by (simp add: makeColorizedSegments_def segLoop_def segStep_def resolveColor_def
        contains_def newSegment_def RESET_def OVERLAP_def upt_rec Let_def)
  have len: "Suc 1 < length (makeColorizedSegments ''abcdef''
                        [newSegment 0 2 ''red'', newSegment 2 4 ''blue''])"
    by (simp add: v)
  note th = C3_full_coverage [of "''abcdef''" "[newSegment 0 2 ''red'', newSegment 2 4 ''blue'']"]
  from th len have adj: "send (makeColorizedSegments ''abcdef''
             [newSegment 0 2 ''red'', newSegment 2 4 ''blue''] ! 1)
       = sbegin (makeColorizedSegments ''abcdef''
                  [newSegment 0 2 ''red'', newSegment 2 4 ''blue''] ! Suc 1)"
    by blast
  from th have u: "(\<Union>s\<in>set (makeColorizedSegments ''abcdef''
                    [newSegment 0 2 ''red'', newSegment 2 4 ''blue'']).
         positions s) = {0 ..< 6}"
    by simp
  from v len adj u show ?thesis by blast
qed

section \<open>The renderer on the output of the segmenter\<close>

lemma take_drop_join:
  fixes xs :: "'a list"
  assumes "a \<le> e" "e \<le> b"
  shows "take (e - a) (drop a xs) @ take (b - e) (drop e xs) = take (b - a) (drop a xs)"
proof -
  have "drop e xs = drop (e - a) (drop a xs)"
    using assms by simp
  moreover have "b - a = (e - a) + (b - e)"
    using assms by simp
  ultimately show ?thesis
    by (simp only: take_add)
qed

lemma renderPieces_tiles:
  assumes "tiles a out b" "0 \<le> a" "b \<le> int (length line)"
  shows "\<exists>ps. renderPieces (segmentText line) out = Some ps
           \<and> literalText ps = take (nat (b - a)) (drop (nat a) line)"
  using assms
proof (induction out arbitrary: a)
  case Nil
  then show ?case by (simp add: literalText_def)
next
  case (Cons s ss)
  from Cons.prems have t: "tiles (send s) ss b" and ab: "sbegin s = a" "a \<le> send s"
    by auto
  from t have eb: "send s \<le> b" by (rule tiles_le)
  from Cons.IH [OF t _ Cons.prems(3)] ab Cons.prems(2)
  obtain ps where ps: "renderPieces (segmentText line) ss = Some ps"
    "literalText ps = take (nat (b - send s)) (drop (nat (send s)) line)"
    by auto
  have seg: "segmentText line s = Some (take (nat (send s - a)) (drop (nat a) line))"
    using ab eb Cons.prems by (simp add: segmentText_def goSlice_def)
  have n: "nat (send s - a) = nat (send s) - nat a" "nat (b - send s) = nat b - nat (send s)"
    "nat (b - a) = nat b - nat a" "nat a \<le> nat (send s)" "nat (send s) \<le> nat b"
    using ab eb Cons.prems(2) by auto
  have "literalText ((colors (sc s), take (nat (send s - a)) (drop (nat a) line), colors RESET) # ps)
          = take (nat (b - a)) (drop (nat a) line)"
    using take_drop_join [OF n(4) n(5), of line] ps(2)
    by (simp add: literalText_def n)
  with ps(1) seg show ?case by simp
qed

lemma segmentText_p0_closedSpan: "segmentText_p0 line (closedSpan s) = segmentText line s"
  by (simp add: segmentText_p0_def segmentText_def closedSpan_def)

lemma sc_closedSpan: "sc (closedSpan s) = sc s"
  by (simp add: closedSpan_def)

lemma renderPieces_p0_closedSpan:
  "renderPieces (segmentText_p0 line) (map closedSpan out) = renderPieces (segmentText line) out"
  by (induction out) (simp_all add: segmentText_p0_closedSpan sc_closedSpan cong: option.case_cong)

lemma printColorized_p0_closedSpan:
  "printColorized_p0 line (map closedSpan out) = printColorized line out"
  by (simp add: printColorized_p0_def printColorized_def renderPieces_p0_closedSpan)

text \<open>
  C1 (round-trip text preservation). For every line and every list of match spans (so
  for the spans of every set of pattern bindings), the renderer does not panic on the
  segmenter's output, and the literal texts of the pieces it writes, concatenated in
  segment order, are the line itself. This holds for bling.go and for the part_000
  variant.
\<close>

theorem C1_round_trip:
  "(\<exists>ps. renderPieces (segmentText line) (makeColorizedSegments line ms) = Some ps
         \<and> printColorized line (makeColorizedSegments line ms)
             = Some (concat (map pieceBytes ps) @ [newline])
         \<and> literalText ps = line)
   \<and> (\<exists>ps. renderPieces (segmentText_p0 line) (makeColorizedSegments_p0 line ms) = Some ps
         \<and> printColorized_p0 line (makeColorizedSegments_p0 line ms)
             = Some (concat (map pieceBytes ps) @ [newline])
         \<and> literalText ps = line)"
proof -
  have "tiles 0 (makeColorizedSegments line ms) (int (length line))"
    by (rule makeColorizedSegments_tiles)
  then obtain ps where ps: "renderPieces (segmentText line) (makeColorizedSegments line ms) = Some ps"
    "literalText ps = take (nat (int (length line) - 0)) (drop (nat 0) line)"
    using renderPieces_tiles [of 0 "makeColorizedSegments line ms" "int (length line)" line]
    by auto
  from ps(2) have lit: "literalText ps = line" by simp
  have pc: "printColorized line (makeColorizedSegments line ms)
              = Some (concat (map pieceBytes ps) @ [newline])"
    using ps(1) by (simp add: printColorized_def)
  have ps0: "renderPieces (segmentText_p0 line) (makeColorizedSegments_p0 line ms) = Some ps"
    using ps(1) by (simp add: makeColorizedSegments_p0_closed renderPieces_p0_closedSpan)
  have pc0: "printColorized_p0 line (makeColorizedSegments_p0 line ms)
              = Some (concat (map pieceBytes ps) @ [newline])"
    using pc by (simp add: makeColorizedSegments_p0_closed printColorized_p0_closedSpan)
  from ps(1) pc lit ps0 pc0 show ?thesis by blast
qed

lemma resolveColor_Nil: "resolveColor [] i = RESET"
  by (simp add: resolveColor_def)

lemma segLoop_Nil: "segLoop [] n = ([], newSegment 0 (int n) RESET)"
  by (induction n)
    (simp_all add: segLoop_0 segLoop_Suc segStep_def resolveColor_Nil newSegment_def)

lemma makeColorizedSegments_Nil:
  "makeColorizedSegments line [] = [newSegment 0 (int (length line)) RESET]"
  by (simp add: makeColorizedSegments_def segLoop_Nil)

lemma printColorized_whole:
  "printColorized line [newSegment 0 (int (length line)) col]
     = Some (colors col @ line @ colors RESET @ [newline])"
  by (simp add: printColorized_def segmentText_def goSlice_def newSegment_def pieceBytes_def)

lemma allSpans_no_match:
  assumes "\<forall>ce\<in>set exprs. \<forall>expr\<in>set (snd ce). expr line = []"
  shows "allSpans line exprs = []"
  using assms by (auto simp: allSpans_def matchSpans_def)

text \<open>
  C4 (no-match identity). When no configured expression matches the line (as when
  there is no binding at all), the matcher returns no span, the segmenter returns the
  single reset segment over the whole line, and the renderer writes the line between
  two reset escape sequences, followed by the line terminator. In the part_000 variant
  the single segment has the closed range and the bytes written are the same.
\<close>

theorem C4_no_match_identity:
  assumes "\<forall>ce\<in>set exprs. \<forall>expr\<in>set (snd ce). expr line = []"
  shows "findMatchingSegments line exprs = []
    \<and> makeColorizedSegments line (findMatchingSegments line exprs)
        = [newSegment 0 (int (length line)) RESET]
    \<and> processLine exprs line = Some (colors RESET @ line @ colors RESET @ [newline])
    \<and> makeColorizedSegments_p0 line (findMatchingSegments line exprs)
        = [newSegment 0 (int (length line) - 1) RESET]
    \<and> printColorized_p0 line (makeColorizedSegments_p0 line (findMatchingSegments line exprs))
        = Some (colors RESET @ line @ colors RESET @ [newline])"
proof -
  have m: "findMatchingSegments line exprs = []"
    using allSpans_no_match [OF assms] by (simp add: findMatchingSegments_def)
  have s: "makeColorizedSegments line (findMatchingSegments line exprs)
        = [newSegment 0 (int (length line)) RESET]"
    by (simp add: m makeColorizedSegments_Nil)
  have p: "processLine exprs line = Some (colors RESET @ line @ colors RESET @ [newline])"
    by (simp add: processLine_def Let_def s printColorized_whole)
  have s0: "makeColorizedSegments_p0 line (findMatchingSegments line exprs)
        = [newSegment 0 (int (length line) - 1) RESET]"
    by (simp add: makeColorizedSegments_p0_closed s closedSpan_def newSegment_def)
  have p0: "printColorized_p0 line (makeColorizedSegments_p0 line (findMatchingSegments line exprs))
        = Some (colors RESET @ line @ colors RESET @ [newline])"
    using printColorized_p0_closedSpan [of line "[newSegment 0 (int (length line)) RESET]"]
    by (simp add: makeColorizedSegments_p0_closed s printColorized_whole)
  from m s p s0 p0 show ?thesis by blast
qed

theorem C4_no_match_identity_witness:
  "(\<lambda>l. if l = ''error'' then [(0::int, 5::int)] else []) ''hello'' = []
   \<and> makeColorizedSegments ''hello''
        (findMatchingSegments ''hello''
           [(''red'', [\<lambda>l. if l = ''error'' then [(0, 5)] else []])])
       = [newSegment 0 5 RESET]
   \<and> processLine [(''red'', [\<lambda>l. if l = ''error'' then [(0, 5)] else []])] ''hello''
       = Some (ESC # ''[0mhello'' @ ESC # ''[0m'' @ [newline])
   \<and> processLine [] ''hello'' = Some (ESC # ''[0mhello'' @ ESC # ''[0m'' @ [newline])"
proof -
  have h: "\<forall>ce\<in>set [(''red'', [\<lambda>l. if l = ''error'' then [(0::int, 5::int)] else []])].
      \<forall>expr\<in>set (snd ce). expr ''hello'' = []"
    by simp
  have h0: "\<forall>ce\<in>set ([] :: exprsMap). \<forall>expr\<in>set (snd ce). expr ''hello'' = []"
    by simp
  have c: "colors RESET = ESC # ''[0m''"
    by (simp add: colors_def colorLookup_def colorTable_def RESET_def)
  have a: "makeColorizedSegments ''hello''
        (findMatchingSegments ''hello''
           [(''red'', [\<lambda>l. if l = ''error'' then [(0, 5)] else []])])
       = [newSegment 0 5 RESET]"
  proof -
    from C4_no_match_identity [OF h]
    have "makeColorizedSegments ''hello''
        (findMatchingSegments ''hello''
           [(''red'', [\<lambda>l. if l = ''error'' then [(0, 5)] else []])])
       = [newSegment 0 (int (length ''hello'')) RESET]"
      by (rule conjunct1 [OF conjunct2])
    then show ?thesis by simp
  qed
  have b: "processLine [(''red'', [\<lambda>l. if l = ''error'' then [(0, 5)] else []])] ''hello''
       = Some (ESC # ''[0mhello'' @ ESC # ''[0m'' @ [newline])"
    using conjunct1 [OF conjunct2 [OF conjunct2 [OF C4_no_match_identity [OF h]]]] c by simp
  have d: "processLine [] ''hello'' = Some (ESC # ''[0mhello'' @ ESC # ''[0m'' @ [newline])"
    using conjunct1 [OF conjunct2 [OF conjunct2 [OF C4_no_match_identity [OF h0]]]] c by simp
  have e: "(\<lambda>l. if l = ''error'' then [(0::int, 5::int)] else []) ''hello'' = []"
    by simp
  from e a b d show ?thesis by (intro conjI)
qed

section \<open>The color of the output at a position\<close>

lemma tiles_covered:
  assumes "tiles a out b" "a \<le> i" "i < b"
  shows "\<exists>s\<in>set out. covers s i"
proof -
  have "i \<in> (\<Union>s\<in>set out. positions s)"
    using assms tiles_positions [OF assms(1)] by simp
  then show ?thesis by (auto simp: positions_def covers_def)
qed

lemma find_covers:
  assumes "\<exists>s\<in>set out. covers s i"
  shows "\<exists>s\<in>set out. covers s i \<and> find (\<lambda>s. covers s i) out = Some s"
  using assms by (induction out) auto

lemma colorAt_makeColorizedSegments:
  assumes "0 \<le> i" "i < int (length line)"
  shows "colorAt (makeColorizedSegments line ms) i = Some (resolveColor ms i)"
proof -
  let ?out = "makeColorizedSegments line ms"
  have "tiles 0 ?out (int (length line))"
    by (rule makeColorizedSegments_tiles)
  then have "\<exists>s\<in>set ?out. covers s i"
    using assms by (rule tiles_covered)
  then obtain s where s: "s \<in> set ?out" "covers s i" "find (\<lambda>s. covers s i) ?out = Some s"
    using find_covers by blast
  from s(1) have "s \<in> set (fst (segLoop ms (length line)) @ [snd (segLoop ms (length line))])"
    by (simp add: makeColorizedSegments_def Let_def)
  then have "sc s = resolveColor ms i"
    using s(2) by (rule segLoop_colors)
  with s(3) show ?thesis by (simp add: colorAt_def)
qed

lemma contains_closedSpan: "contains (closedSpan s) i = covers s i"
  by (auto simp: contains_def covers_def closedSpan_def)

lemma find_closedSpan:
  "find (\<lambda>s. contains s i) (map closedSpan out)
     = map_option closedSpan (find (\<lambda>s. covers s i) out)"
  by (induction out) (simp_all add: contains_closedSpan)

lemma colorAt_p0_closedSpan: "colorAt_p0 (map closedSpan out) i = colorAt out i"
  by (simp add: colorAt_p0_def colorAt_def find_closedSpan option.map_comp comp_def sc_closedSpan)

lemma tiles_before:
  assumes "tiles a out b" "i < a"
  shows "filter (\<lambda>s. covers s i) out = []"
proof -
  have "\<not> covers s i" if "s \<in> set out" for s
    using tiles_bounds [OF assms(1) that] assms(2) by (simp add: covers_def)
  then show ?thesis by (simp add: filter_empty_conv)
qed

lemma tiles_unique:
  assumes "tiles a out b" "a \<le> i" "i < b"
  shows "\<exists>s\<in>set out. covers s i \<and> filter (\<lambda>s. covers s i) out = [s]"
  using assms
proof (induction out arbitrary: a)
  case Nil
  then show ?case by simp
next
  case (Cons t ts)
  from Cons.prems have t: "tiles (send t) ts b" and ab: "sbegin t = a" "a \<le> send t"
    by auto
  show ?case
  proof (cases "i < send t")
    case True
    then have "filter (\<lambda>s. covers s i) ts = []"
      using t by (intro tiles_before)
    moreover have "covers t i"
      using True ab Cons.prems(2) by (simp add: covers_def)
    ultimately show ?thesis by simp
  next
    case False
    then have "\<not> covers t i" by (simp add: covers_def)
    moreover from False have "send t \<le> i" by simp
    from Cons.IH [OF t this Cons.prems(3)]
    obtain s where "s \<in> set ts" "covers s i" "filter (\<lambda>s. covers s i) ts = [s]"
      by auto
    ultimately show ?thesis by auto
  qed
qed

lemma spansAt_closedSpan:
  "spansAt (map closedSpan out) i = map closedSpan (filter (\<lambda>s. covers s i) out)"
  by (induction out) (simp_all add: spansAt_def contains_closedSpan)

lemma resolveColor_output:
  assumes "0 \<le> i" "i < int (length line)"
  shows "resolveColor (map closedSpan (makeColorizedSegments line ms)) i = resolveColor ms i"
proof -
  let ?out = "makeColorizedSegments line ms"
  have "tiles 0 ?out (int (length line))"
    by (rule makeColorizedSegments_tiles)
  then obtain s where s: "s \<in> set ?out" "covers s i" "filter (\<lambda>s. covers s i) ?out = [s]"
    using tiles_unique assms by blast
  from s(1) have "s \<in> set (fst (segLoop ms (length line)) @ [snd (segLoop ms (length line))])"
    by (simp add: makeColorizedSegments_def Let_def)
  then have "sc s = resolveColor ms i"
    using s(2) by (rule segLoop_colors)
  moreover have "resolveColor (map closedSpan ?out) i = sc s"
    by (simp add: resolveColor_spansAt [of "map closedSpan ?out"] spansAt_closedSpan s(3)
        sc_closedSpan)
  ultimately show ?thesis by simp
qed

lemma makeColorizedSegments_cong:
  assumes "\<And>i. i < length line \<Longrightarrow> resolveColor ms (int i) = resolveColor ms' (int i)"
  shows "makeColorizedSegments line ms = makeColorizedSegments line ms'"
  using segLoop_cong [of "length line" ms ms'] assms
  by (simp add: makeColorizedSegments_def)

lemma makeColorizedSegments_fixed:
  "makeColorizedSegments line (map closedSpan (makeColorizedSegments line ms))
     = makeColorizedSegments line ms"
  by (rule makeColorizedSegments_cong) (simp add: resolveColor_output)

text \<open>
  The output of the segmenter does not depend on the order of the matches: neither the
  order in which the \<open>range\<close> loop visits the map nor the order \<open>sort.Slice\<close>
  leaves equal keys in changes it.
\<close>

lemma makeColorizedSegments_perm:
  "mset ms = mset ms' \<Longrightarrow> makeColorizedSegments line ms = makeColorizedSegments line ms'"
  by (rule makeColorizedSegments_cong) (rule spansAt_perm)

lemma colorAt_p0_makeColorizedSegments:
  "colorAt_p0 (makeColorizedSegments_p0 line ms) i = colorAt (makeColorizedSegments line ms) i"
  by (simp add: makeColorizedSegments_p0_closed colorAt_p0_closedSpan)

lemma two_spans:
  assumes "j < k" "k < length ms" "P (ms ! j)" "P (ms ! k)"
  shows "2 \<le> length (filter P ms)"
proof -
  have "{j, k} \<subseteq> {n. n < length ms \<and> P (ms ! n)}"
    using assms by auto
  then have "card {j, k} \<le> card {n. n < length ms \<and> P (ms ! n)}"
    by (intro card_mono) auto
  moreover have "card {j, k} = 2"
    using assms(1) by simp
  ultimately show ?thesis
    by (simp add: length_filter_conv_card)
qed

lemma resolveColor_two:
  assumes "2 \<le> length (spansAt ms i)"
  shows "resolveColor ms i = OVERLAP"
proof -
  from assms obtain a b cs where "spansAt ms i = a # b # cs"
    by (cases "spansAt ms i"; cases "tl (spansAt ms i)") auto
  then show ?thesis by (simp add: resolveColor_spansAt)
qed

text \<open>
  C2, the claim as it stands, fails: with a span of color \<open>overlap\<close> (which
  \<open>-overlap=PATTERN\<close> binds) and a span of color \<open>red\<close> on the same position, the
  two colors differ and the resolved color is the color of the first span.
\<close>

theorem C2_counterexample:
  "contains (newSegment 0 0 ''overlap'') 0
   \<and> contains (newSegment 0 0 ''red'') 0
   \<and> sc (newSegment 0 0 ''overlap'') \<noteq> sc (newSegment 0 0 ''red'')
   \<and> colorAt (makeColorizedSegments ''a'' [newSegment 0 0 ''overlap'', newSegment 0 0 ''red'']) 0
       = Some (sc (newSegment 0 0 ''overlap''))"
  by (simp add: makeColorizedSegments_def segLoop_def segStep_def resolveColor_def
      contains_def newSegment_def RESET_def OVERLAP_def colorAt_def covers_def Let_def)

text \<open>
  C2 (per-position color resolution), amended. At every position of the line the color
  of the output depends only on the spans containing that position: none gives
  \<open>reset\<close>; exactly one gives the color of that span, whatever other spans lie
  elsewhere; two or more give the overlap pseudo-color, which differs from the color of
  every such span that does not itself carry the overlap pseudo-color. The part_000
  variant resolves every position to the same color.
\<close>

theorem C2_color_resolution:
  assumes "0 \<le> i" "i < int (length line)"
  shows "(spansAt ms i = [] \<longrightarrow> colorAt (makeColorizedSegments line ms) i = Some RESET)
    \<and> (\<forall>m. spansAt ms i = [m] \<longrightarrow> colorAt (makeColorizedSegments line ms) i = Some (sc m))
    \<and> (2 \<le> length (spansAt ms i) \<longrightarrow>
          colorAt (makeColorizedSegments line ms) i = Some OVERLAP
          \<and> (\<forall>m\<in>set (spansAt ms i). sc m \<noteq> OVERLAP \<longrightarrow>
                colorAt (makeColorizedSegments line ms) i \<noteq> Some (sc m)))
    \<and> colorAt_p0 (makeColorizedSegments_p0 line ms) i
        = colorAt (makeColorizedSegments line ms) i"
proof -
  have c: "colorAt (makeColorizedSegments line ms) i = Some (resolveColor ms i)"
    using assms by (rule colorAt_makeColorizedSegments)
  have none: "spansAt ms i = [] \<longrightarrow> colorAt (makeColorizedSegments line ms) i = Some RESET"
    by (simp add: c resolveColor_spansAt)
  have one: "\<forall>m. spansAt ms i = [m] \<longrightarrow> colorAt (makeColorizedSegments line ms) i = Some (sc m)"
    by (simp add: c resolveColor_spansAt)
  have more: "2 \<le> length (spansAt ms i) \<longrightarrow>
          colorAt (makeColorizedSegments line ms) i = Some OVERLAP
          \<and> (\<forall>m\<in>set (spansAt ms i). sc m \<noteq> OVERLAP \<longrightarrow>
                colorAt (makeColorizedSegments line ms) i \<noteq> Some (sc m))"
    by (auto simp: c resolveColor_two)
  from none one more colorAt_p0_makeColorizedSegments [of line ms i] show ?thesis
    by (intro conjI)
qed

theorem C2_color_resolution_witness:
  "(0::int) \<le> 2 \<and> (2::int) < int (length ''abcdef'')
   \<and> 2 \<le> length (spansAt [newSegment 0 2 ''red'', newSegment 2 4 ''blue''] 2)
   \<and> spansAt [newSegment 0 2 ''red'', newSegment 2 4 ''blue''] 2
       = [newSegment 0 2 ''red'', newSegment 2 4 ''blue'']
   \<and> sc (newSegment 0 2 ''red'') \<noteq> OVERLAP \<and> sc (newSegment 2 4 ''blue'') \<noteq> OVERLAP
   \<and> colorAt (makeColorizedSegments ''abcdef''
                [newSegment 0 2 ''red'', newSegment 2 4 ''blue'']) 2 = Some OVERLAP
   \<and> colorAt (makeColorizedSegments ''abcdef''
                [newSegment 0 2 ''red'', newSegment 2 4 ''blue'']) 2 \<noteq> Some ''red''
   \<and> colorAt (makeColorizedSegments ''abcdef''
                [newSegment 0 2 ''red'', newSegment 2 4 ''blue'']) 2 \<noteq> Some ''blue''
   \<and> spansAt [newSegment 0 2 ''red'', newSegment 2 4 ''blue''] 0 = [newSegment 0 2 ''red'']
   \<and> colorAt (makeColorizedSegments ''abcdef''
                [newSegment 0 2 ''red'', newSegment 2 4 ''blue'']) 0 = Some ''red''
   \<and> spansAt [newSegment 0 2 ''red'', newSegment 2 4 ''blue''] 5 = []
   \<and> colorAt (makeColorizedSegments ''abcdef''
                [newSegment 0 2 ''red'', newSegment 2 4 ''blue'']) 5 = Some RESET"
proof -
  have h1: "(0::int) \<le> 2" by simp
  have h2: "(2::int) < int (length ''abcdef'')" by simp
  have sp: "spansAt [newSegment 0 2 ''red'', newSegment 2 4 ''blue''] 2
              = [newSegment 0 2 ''red'', newSegment 2 4 ''blue'']"
    by (simp add: spansAt_def contains_def newSegment_def)
  have h3: "2 \<le> length (spansAt [newSegment 0 2 ''red'', newSegment 2 4 ''blue''] 2)"
    by (simp add: sp)
  have h4: "\<forall>m\<in>set (spansAt [newSegment 0 2 ''red'', newSegment 2 4 ''blue''] 2). sc m \<noteq> OVERLAP"
    unfolding sp by (simp add: newSegment_def OVERLAP_def)
  note th = C2_color_resolution [OF h1 h2, of "[newSegment 0 2 ''red'', newSegment 2 4 ''blue'']"]
  from th h3 have a: "colorAt (makeColorizedSegments ''abcdef''
                [newSegment 0 2 ''red'', newSegment 2 4 ''blue'']) 2 = Some OVERLAP"
    by blast
  from th h3 have b: "\<forall>m\<in>set (spansAt [newSegment 0 2 ''red'', newSegment 2 4 ''blue''] 2).
       sc m \<noteq> OVERLAP \<longrightarrow>
       colorAt (makeColorizedSegments ''abcdef''
                [newSegment 0 2 ''red'', newSegment 2 4 ''blue'']) 2 \<noteq> Some (sc m)"
    by blast
  from b have r: "colorAt (makeColorizedSegments ''abcdef''
                [newSegment 0 2 ''red'', newSegment 2 4 ''blue'']) 2 \<noteq> Some ''red''"
    unfolding sp by (simp add: newSegment_def OVERLAP_def)
  from b have bl: "colorAt (makeColorizedSegments ''abcdef''
                [newSegment 0 2 ''red'', newSegment 2 4 ''blue'']) 2 \<noteq> Some ''blue''"
    unfolding sp by (simp add: newSegment_def OVERLAP_def)
  have h5: "sc (newSegment 0 2 ''red'') \<noteq> OVERLAP" "sc (newSegment 2 4 ''blue'') \<noteq> OVERLAP"
    by (simp_all add: newSegment_def OVERLAP_def)
  have sp0: "spansAt [newSegment 0 2 ''red'', newSegment 2 4 ''blue''] 0 = [newSegment 0 2 ''red'']"
    by (simp add: spansAt_def contains_def newSegment_def)
  have i0: "(0::int) \<le> 0" "(0::int) < int (length ''abcdef'')" by simp_all
  from C2_color_resolution [OF i0, of "[newSegment 0 2 ''red'', newSegment 2 4 ''blue'']"] sp0
  have "colorAt (makeColorizedSegments ''abcdef''
                [newSegment 0 2 ''red'', newSegment 2 4 ''blue'']) 0
          = Some (sc (newSegment 0 2 ''red''))"
    by blast
  then have c0: "colorAt (makeColorizedSegments ''abcdef''
                [newSegment 0 2 ''red'', newSegment 2 4 ''blue'']) 0 = Some ''red''"
    by (simp add: newSegment_def)
  have sp5: "spansAt [newSegment 0 2 ''red'', newSegment 2 4 ''blue''] 5 = []"
    by (simp add: spansAt_def contains_def newSegment_def)
  have i5: "(0::int) \<le> 5" "(5::int) < int (length ''abcdef'')" by simp_all
  from C2_color_resolution [OF i5, of "[newSegment 0 2 ''red'', newSegment 2 4 ''blue'']"] sp5
  have c5: "colorAt (makeColorizedSegments ''abcdef''
                [newSegment 0 2 ''red'', newSegment 2 4 ''blue'']) 5 = Some RESET"
    by blast
  from h1 h2 h3 sp h5 a r bl sp0 c0 sp5 c5 show ?thesis by (intro conjI)
qed

section \<open>Feeding the output back, and overlaps of one color\<close>

text \<open>
  C8, the claim as it stands, fails for bling.go: its output ranges are half-open
  while \<open>contains\<close> is inclusive, so neighbouring output segments fed back as spans
  share their boundary position, which then resolves to \<open>overlap\<close>.
\<close>

theorem C8_counterexample:
  "makeColorizedSegments ''ab'' (makeColorizedSegments ''ab'' [newSegment 0 0 ''red''])
     \<noteq> makeColorizedSegments ''ab'' [newSegment 0 0 ''red'']"
  by (simp add: makeColorizedSegments_def segLoop_def segStep_def resolveColor_def
      contains_def newSegment_def RESET_def OVERLAP_def Let_def)

text \<open>
  C8 (idempotent coalescing), amended. The output of the segmenter is a fixed point
  when each output segment is fed back as the closed span of the positions it stands
  for: in bling.go the half-open segment \<open>(begin, end)\<close> as the span
  \<open>(begin, end - 1)\<close>; in the part_000 variant, whose output ranges are closed, the
  segment as it is.
\<close>

theorem C8_fixed_point:
  "makeColorizedSegments line (map closedSpan (makeColorizedSegments line ms))
     = makeColorizedSegments line ms
   \<and> makeColorizedSegments_p0 line (makeColorizedSegments_p0 line ms)
     = makeColorizedSegments_p0 line ms"
  by (simp add: makeColorizedSegments_p0_closed makeColorizedSegments_fixed)

lemma mset_findMatchingSegments:
  "mset (findMatchingSegments line exprs) = mset (allSpans line exprs)"
  by (simp add: findMatchingSegments_def)

text \<open>
  C9 (no deduplication by color). The matcher keeps one span for every match of every
  expression: its result is the list of all spans, reordered. A position contained in
  the spans at two different places of the list of matches resolves to the overlap
  pseudo-color, whatever the colors of the spans, so also when they all carry the same
  color.
\<close>

theorem C9_same_color_overlap:
  assumes "0 \<le> i" "i < int (length line)"
    and "j < k" "k < length ms" "contains (ms ! j) i" "contains (ms ! k) i"
  shows "colorAt (makeColorizedSegments line ms) i = Some OVERLAP
    \<and> colorAt_p0 (makeColorizedSegments_p0 line ms) i = Some OVERLAP
    \<and> mset (findMatchingSegments line exprs) = mset (allSpans line exprs)"
proof -
  have "2 \<le> length (spansAt ms i)"
    unfolding spansAt_def using assms(3-6) by (rule two_spans)
  then have "resolveColor ms i = OVERLAP"
    by (rule resolveColor_two)
  then have c: "colorAt (makeColorizedSegments line ms) i = Some OVERLAP"
    using colorAt_makeColorizedSegments [OF assms(1,2), of ms] by simp
  then have c0: "colorAt_p0 (makeColorizedSegments_p0 line ms) i = Some OVERLAP"
    by (simp add: colorAt_p0_makeColorizedSegments)
  from c c0 mset_findMatchingSegments [of line exprs] show ?thesis
    by (intro conjI)
qed

theorem C9_same_color_overlap_witness:
  "findMatchingSegments ''abc'' [(''red'', [\<lambda>l. [(0, 2)], \<lambda>l. [(1, 3)]])]
     = [newSegment 0 1 ''red'', newSegment 1 2 ''red'']
   \<and> (0::int) \<le> 1 \<and> (1::int) < int (length ''abc'') \<and> (0::nat) < 1
   \<and> 1 < length (findMatchingSegments ''abc'' [(''red'', [\<lambda>l. [(0, 2)], \<lambda>l. [(1, 3)]])])
   \<and> contains (findMatchingSegments ''abc'' [(''red'', [\<lambda>l. [(0, 2)], \<lambda>l. [(1, 3)]])] ! 0) 1
   \<and> contains (findMatchingSegments ''abc'' [(''red'', [\<lambda>l. [(0, 2)], \<lambda>l. [(1, 3)]])] ! 1) 1
   \<and> colorAt (makeColorizedSegments ''abc''
        (findMatchingSegments ''abc'' [(''red'', [\<lambda>l. [(0, 2)], \<lambda>l. [(1, 3)]])])) 1
       = Some OVERLAP"
proof -
  have f: "findMatchingSegments ''abc'' [(''red'', [\<lambda>l. [(0, 2)], \<lambda>l. [(1, 3)]])]
     = [newSegment 0 1 ''red'', newSegment 1 2 ''red'']"
    by (simp add: findMatchingSegments_def allSpans_def matchSpans_def newSegment_def)
  have h1: "(0::int) \<le> 1" by simp
  have h2: "(1::int) < int (length ''abc'')" by simp
  have h3: "(0::nat) < 1" by simp
  have h4: "1 < length (findMatchingSegments ''abc'' [(''red'', [\<lambda>l. [(0, 2)], \<lambda>l. [(1, 3)]])])"
    unfolding f by simp
  have h5: "contains (findMatchingSegments ''abc''
              [(''red'', [\<lambda>l. [(0, 2)], \<lambda>l. [(1, 3)]])] ! 0) 1"
    unfolding f by (simp add: contains_def newSegment_def)
  have h6: "contains (findMatchingSegments ''abc''
              [(''red'', [\<lambda>l. [(0, 2)], \<lambda>l. [(1, 3)]])] ! 1) 1"
    unfolding f by (simp add: contains_def newSegment_def)
  have c: "colorAt (makeColorizedSegments ''abc''
        (findMatchingSegments ''abc'' [(''red'', [\<lambda>l. [(0, 2)], \<lambda>l. [(1, 3)]])])) 1
       = Some OVERLAP"
    by (rule conjunct1 [OF C9_same_color_overlap [OF h1 h2 h3 h4 h5 h6]])
  from f h1 h2 h3 h4 h5 h6 c show ?thesis by (intro conjI)
qed

section \<open>The line driver, argument parsing and main\<close>

lemma runLoop_end:
  assumes "newline \<notin> set (pending r)"
  shows "runLoop r exprs out
           = (out, if final r = EOF then Returned None else Returned (Some (final r)))"
  using assms by (subst runLoop.simps) (simp add: ReadBytes_def Let_def)

lemma stripNewline_read:
  "stripNewline (l @ [newline]) = Some l"
  by (simp add: stripNewline_def)

lemma ReadBytes_line:
  assumes "newline \<notin> set l"
  shows "ReadBytes \<lparr>pending = l @ newline # rest, final = e\<rparr>
           = (l @ [newline], None, \<lparr>pending = rest, final = e\<rparr>)"
proof -
  have "takeWhile (\<lambda>b. b \<noteq> newline) (l @ newline # rest) = l"
    using assms by (induction l) auto
  moreover have "dropWhile (\<lambda>b. b \<noteq> newline) (l @ newline # rest) = newline # rest"
    using assms by (induction l) auto
  ultimately show ?thesis by (simp add: ReadBytes_def)
qed

lemma runLoop_line:
  assumes "newline \<notin> set l" "processLine exprs l = Some bytes"
  shows "runLoop \<lparr>pending = l @ newline # rest, final = e\<rparr> exprs out
           = runLoop \<lparr>pending = rest, final = e\<rparr> exprs (out @ bytes)"
  by (subst runLoop.simps) (simp add: ReadBytes_line [OF assms(1)] stripNewline_read assms(2))

lemma processLine_total: "\<exists>bytes. processLine exprs line = Some bytes"
proof -
  let ?ms = "findMatchingSegments line exprs"
  have "tiles 0 (makeColorizedSegments line ?ms) (int (length line))"
    by (rule makeColorizedSegments_tiles)
  then obtain ps where "renderPieces (segmentText line) (makeColorizedSegments line ?ms) = Some ps"
    using renderPieces_tiles [of 0 "makeColorizedSegments line ?ms" "int (length line)" line]
    by auto
  then show ?thesis
    by (simp add: processLine_def Let_def printColorized_def)
qed

lemma isWordChar_simps:
  "isWordChar (CHR ''='') = False" "isWordChar (CHR ''-'') = False"
  "isWordChar (CHR ''/'') = False"
  "isWordChar (CHR ''a'') = True" "isWordChar (CHR ''d'') = True" "isWordChar (CHR ''e'') = True"
  "isWordChar (CHR ''l'') = True" "isWordChar (CHR ''o'') = True" "isWordChar (CHR ''p'') = True"
  "isWordChar (CHR ''r'') = True" "isWordChar (CHR ''s'') = True" "isWordChar (CHR ''t'') = True"
  "isWordChar (CHR ''u'') = True" "isWordChar (CHR ''v'') = True"
  by (simp_all add: isWordChar_def)

lemma colorLookup_known:
  "colorLookup ''red'' = Some (ESC # ''[31m'')"
  "colorLookup ''reset'' = Some (ESC # ''[0m'')"
  "colorLookup ''overlap'' = Some (ESC # ''[37;1;4m'')"
  "colorLookup ''purple'' = None"
  by (simp_all add: colorLookup_def colorTable_def)

lemma findStringSubmatch_red: "findStringSubmatch ''-red=a'' = Some (''red'', ''a'')"
  by (simp add: findStringSubmatch_def isWordChar_simps newline_def)

lemma findStringSubmatch_path: "findStringSubmatch ''/tmp'' = None"
  by (simp add: findStringSubmatch_def)

lemma findStringSubmatch_overlap: "findStringSubmatch (''-overlap='' @ pat) = Some (''overlap'', takeWhile (\<lambda>b. b \<noteq> newline) pat)"
  by (simp add: findStringSubmatch_def isWordChar_simps)

lemma processLine_a: "processLine [] ''a'' = Some (ESC # ''[0ma'' @ ESC # ''[0m'' @ [newline])"
  by (simp add: processLine_def findMatchingSegments_def allSpans_def makeColorizedSegments_Nil
        printColorized_whole [of "''a''", simplified] colors_def colorLookup_known RESET_def)


lemma findStringSubmatch_reset:
  "findStringSubmatch (''-reset='' @ pat) = Some (''reset'', takeWhile (\<lambda>b. b \<noteq> newline) pat)"
  by (simp add: findStringSubmatch_def isWordChar_simps)

lemma findStringSubmatch_purple:
  "findStringSubmatch ''-purple=foo'' = Some (''purple'', ''foo'')"
  by (simp add: findStringSubmatch_def isWordChar_simps newline_def)

text \<open>
  C5 (final-line processing): the code departs from the claim. The input \<open>a\<close>,
  newline, \<open>b\<close> ends without a newline; the read of \<open>b\<close> comes back together with
  \<open>EOF\<close>, and \<open>run\<close> returns on it before looking at the data: only the line \<open>a\<close>
  is rendered.
\<close>

theorem C5_final_line_dropped:
  "run \<lparr>pending = ''a'' @ newline # ''b'', final = EOF\<rparr> []
     = (ESC # ''[0ma'' @ ESC # ''[0m'' @ [newline], Returned None)"
proof -
  have a: "newline \<notin> set ''a''" by (simp add: newline_def)
  have b: "newline \<notin> set (pending \<lparr>pending = ''b'', final = EOF\<rparr>)" by (simp add: newline_def)
  have "run \<lparr>pending = ''a'' @ newline # ''b'', final = EOF\<rparr> []
          = runLoop \<lparr>pending = ''a'' @ newline # ''b'', final = EOF\<rparr> [] []"
    by (simp only: run_def)
  also have "\<dots> = runLoop \<lparr>pending = ''b'', final = EOF\<rparr> []
                      ([] @ ESC # ''[0ma'' @ ESC # ''[0m'' @ [newline])"
    by (rule runLoop_line [OF a processLine_a])
  also have "\<dots> = ([] @ ESC # ''[0ma'' @ ESC # ''[0m'' @ [newline],
                      if final \<lparr>pending = ''b'', final = EOF\<rparr> = EOF then Returned None
                      else Returned (Some (final \<lparr>pending = ''b'', final = EOF\<rparr>)))"
    by (rule runLoop_end [OF b])
  finally show ?thesis by simp
qed

text \<open>
  C6 (read-error propagation): the code departs from the claim. When the opened file
  fails to read (a directory, for instance), \<open>run\<close> returns the error, but \<open>main\<close>
  drops the value \<open>run\<close> returns and ends with status 0.
\<close>

theorem C6_read_error_exit_zero:
  "run \<lparr>pending = [], final = ReadError ''is a directory''\<rparr> [(''red'', [\<lambda>l. []])]
     = ([], Returned (Some (ReadError ''is a directory'')))
   \<and> main \<lparr>osOpen = (\<lambda>p. Inr \<lparr>pending = [], final = ReadError ''is a directory''\<rparr>),
            osStdin = \<lparr>pending = [], final = EOF\<rparr>,
            regexpCompile = (\<lambda>p. Some (\<lambda>l. []))\<rparr>
        [''bling'', ''-red=a'', ''/tmp'']
     = (0, [])"
proof -
  have e: "newline \<notin> set (pending \<lparr>pending = [], final = ReadError ''is a directory''\<rparr>)"
    by simp
  have r: "run \<lparr>pending = [], final = ReadError ''is a directory''\<rparr> [(''red'', [\<lambda>l. []])]
     = ([], Returned (Some (ReadError ''is a directory'')))"
    unfolding run_def by (simp add: runLoop_end [OF e])
  show ?thesis
    by (simp add: r main_def parseArgs_def findStringSubmatch_red findStringSubmatch_path
        colorLookup_known)
qed

lemma parseLoop_error:
  "configErrorAt ev args k \<Longrightarrow> \<exists>err. parseLoop ev args exprs = Inl err"
proof (induction args arbitrary: k exprs)
  case Nil
  then show ?case by (simp add: configErrorAt_def)
next
  case (Cons arg rest)
  show ?case
  proof (cases "findStringSubmatch arg")
    case None
    show ?thesis
    proof (cases "rest = []")
      case True
      with Cons.prems None have "isl (osOpen ev arg)"
        by (auto simp: configErrorAt_def malformedToken_def unrecognizedColor_def
            invalidPattern_def unopenablePath_def)
      then obtain err where "osOpen ev arg = Inl err"
        by (cases "osOpen ev arg") auto
      with None True show ?thesis by simp
    next
      case False
      with None show ?thesis by simp
    qed
  next
    case (Some cp)
    obtain col pattern where cp: "cp = (col, pattern)" by (cases cp)
    show ?thesis
    proof (cases "colorLookup col = None \<or> regexpCompile ev pattern = None")
      case True
      with Some cp show ?thesis by (auto split: option.splits)
    next
      case False
      then obtain expr where ok: "colorLookup col \<noteq> None" "regexpCompile ev pattern = Some expr"
        by auto
      have "k \<noteq> 0"
      proof
        assume "k = 0"
        with Cons.prems Some cp False show False
          by (auto simp: configErrorAt_def malformedToken_def unrecognizedColor_def
              invalidPattern_def unopenablePath_def)
      qed
      then obtain k' where k: "k = Suc k'" by (cases k) auto
      with Cons.prems have "configErrorAt ev rest k'"
        by (simp add: configErrorAt_def)
      then obtain err where "parseLoop ev rest (addExpr exprs col expr) = Inl err"
        using Cons.IH by blast
      with Some cp ok show ?thesis by simp
    qed
  qed
qed

text \<open>
  C7 (configuration errors). When some argument is a configuration error (a malformed
  token before the last place, an unrecognized color name, an invalid regular
  expression, or a last argument naming a file that cannot be opened), \<open>parseArgs\<close>
  returns an error, and \<open>main\<close> ends with status 1 and nothing on standard output,
  never having called \<open>run\<close>.
\<close>

theorem C7_config_errors_fatal:
  assumes "\<exists>k. configErrorAt ev args k"
  shows "(\<exists>err. parseArgs ev args = Inl err) \<and> main ev (prog # args) = (1, [])"
proof -
  from assms obtain k where k: "configErrorAt ev args k" ..
  then obtain err where "parseLoop ev args [] = Inl err"
    using parseLoop_error by blast
  then have p: "parseArgs ev args = Inl err"
    by (simp add: parseArgs_def)
  from k have "args \<noteq> []" by (auto simp: configErrorAt_def)
  with p show ?thesis by (simp add: main_def)
qed

theorem C7_config_errors_fatal_witness:
  "configErrorAt \<lparr>osOpen = (\<lambda>p. Inl (OpenError p)), osStdin = \<lparr>pending = ''x'', final = EOF\<rparr>,
                  regexpCompile = (\<lambda>p. Some (\<lambda>l. []))\<rparr> [''-purple=foo''] 0
   \<and> parseArgs \<lparr>osOpen = (\<lambda>p. Inl (OpenError p)), osStdin = \<lparr>pending = ''x'', final = EOF\<rparr>,
                regexpCompile = (\<lambda>p. Some (\<lambda>l. []))\<rparr> [''-purple=foo'']
       = Inl (ErrorString ''Unrecognized color purple'')
   \<and> main \<lparr>osOpen = (\<lambda>p. Inl (OpenError p)), osStdin = \<lparr>pending = ''x'', final = EOF\<rparr>,
            regexpCompile = (\<lambda>p. Some (\<lambda>l. []))\<rparr> [''bling'', ''-purple=foo'']
       = (1, [])"
proof -
  let ?ev = "\<lparr>osOpen = (\<lambda>p. Inl (OpenError p)), osStdin = \<lparr>pending = ''x'', final = EOF\<rparr>,
              regexpCompile = (\<lambda>p. Some (\<lambda>l. []))\<rparr>"
  have h: "configErrorAt ?ev [''-purple=foo''] 0"
    by (simp add: configErrorAt_def unrecognizedColor_def findStringSubmatch_purple
        colorLookup_known)
  then have h': "\<exists>k. configErrorAt ?ev [''-purple=foo''] k" ..
  have p: "parseArgs ?ev [''-purple=foo''] = Inl (ErrorString ''Unrecognized color purple'')"
    by (simp add: parseArgs_def findStringSubmatch_purple colorLookup_known)
  have m: "main ?ev [''bling'', ''-purple=foo''] = (1, [])"
    using C7_config_errors_fatal [OF h', of "''bling''"] by (rule conjunct2)
  from h p m show ?thesis by (intro conjI)
qed

text \<open>
  C10 (pseudo-colors as binding colors). The names \<open>overlap\<close> and \<open>reset\<close> are keys
  of the escape-sequence table, so \<open>-overlap=PATTERN\<close> and \<open>-reset=PATTERN\<close> with a
  pattern that compiles are parsed into a binding of that color, with no error.
\<close>

theorem C10_pseudo_colors_accepted:
  assumes "regexpCompile ev (takeWhile (\<lambda>b. b \<noteq> newline) pat) = Some expr"
  shows "colorLookup OVERLAP \<noteq> None \<and> colorLookup RESET \<noteq> None
    \<and> parseArgs ev [''-overlap='' @ pat] = Inr ([(''overlap'', [expr])], osStdin ev)
    \<and> parseArgs ev [''-reset='' @ pat] = Inr ([(''reset'', [expr])], osStdin ev)"
  using assms
  by (simp add: parseArgs_def findStringSubmatch_overlap findStringSubmatch_reset
      colorLookup_known OVERLAP_def RESET_def del: append.simps)

theorem C10_pseudo_colors_accepted_witness:
  "regexpCompile \<lparr>osOpen = (\<lambda>p. Inl (OpenError p)), osStdin = \<lparr>pending = ''x'', final = EOF\<rparr>,
                  regexpCompile = (\<lambda>p. if p = ''a'' then Some (\<lambda>l. [(0, 1)]) else None)\<rparr>
       (takeWhile (\<lambda>b. b \<noteq> newline) ''a'') = Some (\<lambda>l. [(0, 1)])
   \<and> parseArgs \<lparr>osOpen = (\<lambda>p. Inl (OpenError p)), osStdin = \<lparr>pending = ''x'', final = EOF\<rparr>,
                regexpCompile = (\<lambda>p. if p = ''a'' then Some (\<lambda>l. [(0, 1)]) else None)\<rparr>
        [''-overlap=a'']
       = Inr ([(''overlap'', [\<lambda>l. [(0, 1)]])], \<lparr>pending = ''x'', final = EOF\<rparr>)"
proof -
  let ?ev = "\<lparr>osOpen = (\<lambda>p. Inl (OpenError p)), osStdin = \<lparr>pending = ''x'', final = EOF\<rparr>,
              regexpCompile = (\<lambda>p. if p = ''a'' then Some (\<lambda>l. [(0::int, 1::int)]) else None)\<rparr>"
  have h: "regexpCompile ?ev (takeWhile (\<lambda>b. b \<noteq> newline) ''a'') = Some (\<lambda>l. [(0, 1)])"
    by (simp add: newline_def)
  have "parseArgs ?ev [''-overlap='' @ ''a'']
          = Inr ([(''overlap'', [\<lambda>l. [(0, 1)]])], osStdin ?ev)"
    using C10_pseudo_colors_accepted [OF h] by (elim conjE)
  then have p: "parseArgs ?ev [''-overlap=a'']
          = Inr ([(''overlap'', [\<lambda>l. [(0, 1)]])], \<lparr>pending = ''x'', final = EOF\<rparr>)"
    by simp
  from h p show ?thesis by (intro conjI)
qed

section \<open>General behaviour of the driver\<close>

text \<open>
  Whatever the input, the loop of \<open>run\<close> ends without a panic: with nil when the
  stream ends cleanly, with the error of the stream otherwise. What remains after the
  last newline adds nothing to the output, and \<open>main\<close> ends with status 0 whenever
  the arguments parse, whatever \<open>run\<close> returns.
\<close>

lemma ReadBytes_final: "final (snd (snd (ReadBytes r))) = final r"
  by (simp add: ReadBytes_def)

lemma ReadBytes_ok:
  assumes "fst (snd (ReadBytes r)) = None"
  shows "stripNewline (fst (ReadBytes r)) = Some (takeWhile (\<lambda>b. b \<noteq> newline) (pending r))"
  using assms by (auto simp: ReadBytes_def stripNewline_def split: if_splits)

lemma runLoop_outcome:
  "snd (runLoop r exprs out)
     = (if final r = EOF then Returned None else Returned (Some (final r)))"
proof (induction r exprs out rule: runLoop.induct)
  case (1 r exprs out)
  show ?case
  proof (cases "fst (snd (ReadBytes r)) = None")
    case True
    let ?line = "takeWhile (\<lambda>b. b \<noteq> newline) (pending r)"
    have s: "stripNewline (fst (ReadBytes r)) = Some ?line"
      using True by (rule ReadBytes_ok)
    obtain bytes where b: "processLine exprs ?line = Some bytes"
      using processLine_total by blast
    have "snd (runLoop (snd (snd (ReadBytes r))) exprs (out @ bytes))
            = (if final (snd (snd (ReadBytes r))) = EOF then Returned None
               else Returned (Some (final (snd (snd (ReadBytes r))))))"
      using "1.IH" [OF refl _ s b] True by simp
    moreover have "runLoop r exprs out = runLoop (snd (snd (ReadBytes r))) exprs (out @ bytes)"
      by (subst runLoop.simps) (simp add: Let_def True s b)
    ultimately show ?thesis by (simp add: ReadBytes_final)
  next
    case False
    then have e: "fst (snd (ReadBytes r)) = Some (final r)"
      by (auto simp: ReadBytes_def split: if_splits)
    show ?thesis
      by (subst runLoop.simps) (simp add: Let_def e)
  qed
qed

lemma run_outcome:
  "snd (run r exprs) = (if final r = EOF then Returned None else Returned (Some (final r)))"
  by (simp add: run_def runLoop_outcome)

lemma run_unterminated:
  "newline \<notin> set l \<Longrightarrow> fst (run \<lparr>pending = l, final = e\<rparr> exprs) = []"
  by (simp add: run_def runLoop_end)

lemma main_ignores_run:
  assumes "parseArgs ev args = Inr (exprs, rc)" "args \<noteq> []"
  shows "main ev (prog # args) = (0, fst (run rc exprs))"
proof -
  obtain out res where r: "run rc exprs = (out, res)" by (cases "run rc exprs")
  have "res = (if final rc = EOF then Returned None else Returned (Some (final rc)))"
    using run_outcome [of rc exprs] r by simp
  then show ?thesis using assms r by (auto simp: main_def)
qed

end
